theory Spec2Isabelle
  imports Main "HOL-Library.AList" "HOL-Library.Multiset"
begin

section \<open>The cyclestats processor: metrics, timestamps and the group key\<close>

text \<open>
  The processor (package cyclestats, type \<open>CycleStats\<close>) buffers Telegraf metrics under a
  group key made of the measurement name and the timestamp truncated to one second, and
  flushes the whole cache when the group of the last metric of a batch holds as many
  metrics as the required-field list of its measurement is long.

  A Telegraf metric is a name, a tag list, a field list and a timestamp. Field values are
  of any type \<open>'v\<close> (Telegraf stores numbers, strings and booleans). The timestamp is a
  Go \<open>time.Time\<close>, which Telegraf stores as it is given: an instant together with a
  Location.
\<close>

text \<open>
  A \<open>time.Time\<close>, as far as \<open>Truncate\<close> and \<open>String\<close> read it: the instant in nanoseconds
  since the Unix epoch and, from the Location, the abbreviation and the offset (seconds
  east of UTC) of the zone in force at that instant. The abbreviation is any string
  (\<open>time.FixedZone\<close> takes any name); it is empty when the zone has no name.
\<close>

record gotime =
  unix_nsec :: int
  zone_name :: string
  zone_offset :: int

text \<open>An instant in the Location \<open>time.UTC\<close>, as \<open>time.Unix(0, n).UTC()\<close> gives it.\<close>

definition in_UTC :: "int \<Rightarrow> gotime" where
  "in_UTC n = \<lparr>unix_nsec = n, zone_name = ''UTC'', zone_offset = 0\<rparr>"

record 'v metric =
  Name :: string
  TagList :: "(string \<times> string) list"
  FieldList :: "(string \<times> 'v) list"
  Time :: gotime

text \<open>\<open>m.HasField(key)\<close>: is there a field with this key.\<close>

definition HasField :: "'v metric \<Rightarrow> string \<Rightarrow> bool" where
  "HasField m key = (key \<in> set (map fst (FieldList m)))"

text \<open>
  \<open>m.AddField(key, value)\<close>: the first field with this key gets the new value in place;
  when there is none, the field is appended.
\<close>

fun add_field :: "string \<Rightarrow> 'v \<Rightarrow> (string \<times> 'v) list \<Rightarrow> (string \<times> 'v) list" where
  "add_field key v [] = [(key, v)]"
| "add_field key v (f # fs) =
     (if key = fst f then (key, v) # fs else f # add_field key v fs)"

definition AddField :: "string \<Rightarrow> 'v \<Rightarrow> 'v metric \<Rightarrow> 'v metric" where
  "AddField key v m = m\<lparr>FieldList := add_field key v (FieldList m)\<rparr>"

text \<open>\<open>m.Copy()\<close>: a new metric with the same name, tags, fields and time.\<close>

definition Copy :: "'v metric \<Rightarrow> 'v metric" where
  "Copy m = \<lparr>Name = Name m, TagList = TagList m, FieldList = FieldList m, Time = Time m\<rparr>"

subsection \<open>Go's time: truncation and printing\<close>

definition Millisecond :: int where
  "Millisecond = 1000000"

text \<open>
  \<open>t.Truncate(d)\<close> rounds the instant of \<open>t\<close> down to a multiple of \<open>d\<close> since Go's zero
  time, which is 62135596800 seconds before the Unix epoch, and keeps the Location; for
  \<open>d \<le> 0\<close> it returns \<open>t\<close>.
\<close>

definition unixToInternal :: int where
  "unixToInternal = 62135596800 * 1000000000"

definition Truncate :: "int \<Rightarrow> gotime \<Rightarrow> gotime" where
  "Truncate d t =
     (if d \<le> 0 then t
      else t\<lparr>unix_nsec := unix_nsec t - (unix_nsec t + unixToInternal) mod d\<rparr>)"

text \<open>Decimal digits, and Go's \<open>appendInt\<close>: a sign, then the digits padded with zeros.\<close>

definition digit :: "nat \<Rightarrow> char" where
  "digit n = ''0123456789'' ! (n mod 10)"

fun digits :: "nat \<Rightarrow> string" where
  "digits n = (if n < 10 then [digit n] else digits (n div 10) @ [digit n])"

declare digits.simps [simp del]

definition appendInt :: "int \<Rightarrow> nat \<Rightarrow> string" where
  "appendInt x width =
     (let u = nat \<bar>x\<bar>; ds = digits u
      in (if x < 0 then ''-'' else []) @ replicate (width - length ds) CHR ''0'' @ ds)"

text \<open>
  The fraction of a second as the layout \<open>.999999999\<close> prints it: nothing when it is zero,
  else a dot and nine digits without the trailing zeros.
\<close>

fun strip_zeros :: "string \<Rightarrow> string" where
  "strip_zeros [] = []"
| "strip_zeros (c # cs) = (if c = CHR ''0'' then strip_zeros cs else c # cs)"

definition appendNano :: "int \<Rightarrow> string" where
  "appendNano nsec =
     (if nsec = 0 then []
      else ''.'' @ rev (strip_zeros (rev (appendInt nsec 9))))"

text \<open>The civil date of a day number (days since 1970-01-01), proleptic Gregorian.\<close>

definition civil :: "int \<Rightarrow> int \<times> int \<times> int" where
  "civil days =
     (let z = days + 719468;
          era = z div 146097;
          doe = z mod 146097;
          yoe = (doe - doe div 1460 + doe div 36524 - doe div 146096) div 365;
          doy = doe - (365 * yoe + yoe div 4 - yoe div 100);
          mp = (5 * doy + 2) div 153;
          d = doy - (153 * mp + 2) div 5 + 1;
          m = (if mp < 10 then mp + 3 else mp - 9);
          y = yoe + era * 400
      in (if m \<le> 2 then y + 1 else y, m, d))"

text \<open>
  The zone offset as the layout \<open>-0700\<close> prints it: the offset in minutes, which Go gets
  by a division that truncates towards zero, as a sign, two digits of hours and two of
  minutes.
\<close>

definition appendNumTZ :: "int \<Rightarrow> string" where
  "appendNumTZ offset =
     (let zone = (if offset < 0 then - ((- offset) div 60) else offset div 60)
      in (if zone < 0 then ''-'' else ''+'')
         @ appendInt (\<bar>zone\<bar> div 60) 2 @ appendInt (\<bar>zone\<bar> mod 60) 2)"

text \<open>
  \<open>t.String()\<close> is \<open>t.Format("2006-01-02 15:04:05.999999999 -0700 MST")\<close>: the date and the
  clock in the zone of \<open>t\<close>, the zone offset, and the zone abbreviation, for which the
  offset is printed once more when the zone has no name. A truncated time carries no
  monotonic clock reading, so nothing follows the zone.
\<close>

definition time_String :: "gotime \<Rightarrow> string" where
  "time_String t =
     (let secs = unix_nsec t div 1000000000 + zone_offset t;
          nsec = unix_nsec t mod 1000000000;
          (y, mo, d) = civil (secs div 86400);
          r = secs mod 86400
      in appendInt y 4 @ ''-'' @ appendInt mo 2 @ ''-'' @ appendInt d 2 @ '' ''
         @ appendInt (r div 3600) 2 @ '':'' @ appendInt (r mod 3600 div 60) 2 @ '':''
         @ appendInt (r mod 60) 2 @ appendNano nsec @ '' '' @ appendNumTZ (zone_offset t)
         @ '' '' @ (if zone_name t \<noteq> [] then zone_name t else appendNumTZ (zone_offset t)))"

section \<open>The processor\<close>

text \<open>
  The state of a \<open>CycleStats\<close> value: the grouping patterns, the required-field table, the
  cache and the compiled filter (\<open>None\<close> is Go's nil). The cache is a Go map from group
  key to the buffered metrics; it is kept here as a list of pairs with distinct keys, in
  the order the keys came in. Go iterates a map in no fixed order: where a flush returns
  the aggregates of several groups, the properties below compare them as a multiset.
  The fields \<open>Name\<close> and \<open>Log\<close> of the Go struct play no part and are left out.

  \<open>filter.Compile\<close> belongs to Telegraf; it is a parameter \<open>compile\<close> of the operations
  that call it, giving an error message or a filter.
\<close>

record ('v, 'f) CycleStats =
  GroupBy :: "string list"
  Fields :: "string \<rightharpoonup> string list"
  cache :: "(string \<times> 'v metric list) list"
  filters :: "'f option"

datatype error = CouldNotCompilePattern "string list" string

text \<open>Reading a Go map at a missing key gives the nil slice, of length 0.\<close>

definition required :: "('v, 'f) CycleStats \<Rightarrow> string \<Rightarrow> string list" where
  "required t n = (case Fields t n of None \<Rightarrow> [] | Some fs \<Rightarrow> fs)"

definition buffered :: "(string \<times> 'v metric list) list \<Rightarrow> string \<Rightarrow> 'v metric list" where
  "buffered c k = (case map_of c k of None \<Rightarrow> [] | Some ms \<Rightarrow> ms)"

text \<open>The table that \<open>New\<close> sets up (\<open>steam_stats\<close> is assigned twice, to the same list).\<close>

definition default_Fields :: "(string \<times> string list) list" where
  "default_Fields =
     [(''steam_params'', [''steam_type'', ''cook_temp'', ''control_temp'', ''hot_drain_temp'',
        ''pv_unsafe'', ''pv_too_low'', ''drain_open_duration'', ''drain_to_sec1'',
        ''drain_to_sec2'', ''wait_pressure'']),
      (''steam_stats'', [''error'', ''flows'', ''pd_timeouts'', ''stag_recoveries'',
        ''stop_cook_count'']),
      (''vessel_status'', [''lid_position'', ''shroud_inside_up'', ''shroud_inside_down'',
        ''shroud_outside_up'', ''shroud_outside_down'', ''shrouds'', ''vessel_temperature'',
        ''heater_temperature'', ''runaway_temperature'', ''pv_sensor_type'',
        ''vessel_pressure'', ''seal_pressure'', ''accumulator_pressure'', ''top_cover'',
        ''top_lid_open'', ''top_lid_closed'', ''bottom_lid_open'', ''bottom_lid_closed'']),
      (''system_status'', [''cover_interlock'', ''battery_fault'', ''line_current'',
        ''deodorizer_tank'', ''oil_tank'', ''flow_count'', ''bag_door'', ''top_cover'',
        ''reservoir'', ''fans'']),
      (''sys_status_mngr'', [''heater'', ''vacuum'', ''water'', ''compressor'']),
      (''grinder'', [''grinder_state'', ''jack_status'', ''switches_bottom'',
        ''switches_top'', ''reversals'']),
      (''vessel_lid_failure'', [''top_lid_open_failed'', ''top_lid_close_failed'',
        ''bottom_lid_open_failed'', ''bottom_lid_close_failed'',
        ''inside_shroud_open_failed'', ''inside_shroud_close_failed'',
        ''accumulator_not_pressurized'', ''seals_vacuum_failed'', ''jack_up_failed'',
        ''close_seals_failed'', ''vent_seals_failed'', ''compressor_throttled'',
        ''pv_mismatch'', ''error''])]"

definition Reset :: "('v, 'f) CycleStats \<Rightarrow> ('v, 'f) CycleStats" where
  "Reset t = t\<lparr>cache := []\<rparr>"

definition New :: "('v, 'f) CycleStats" where
  "New = Reset \<lparr>GroupBy = [''*''], Fields = map_of default_Fields, cache = [],
                 filters = None\<rparr>"

text \<open>\<open>Init\<close> writes a log line and returns nil: \<open>None\<close> is "no error".\<close>

definition Init :: "('v, 'f) CycleStats \<Rightarrow> error option" where
  "Init t = None"

text \<open>
  \<open>generateGroupByKey\<close>: the patterns are compiled on the first call that finds no filter;
  when they do not compile the key is the empty string and an error comes with it.
  The function returns the state too, since it stores the filter. The key itself is
  \<open>m.Name() + "&" + m.Time().Truncate(1000*time.Millisecond).String()\<close>.
\<close>

definition groupkey_of :: "'v metric \<Rightarrow> string" where
  "groupkey_of m = Name m @ ''&'' @ time_String (Truncate (1000 * Millisecond) (Time m))"

definition generateGroupByKey ::
  "(string list \<Rightarrow> string + 'f) \<Rightarrow> ('v, 'f) CycleStats \<Rightarrow> 'v metric
     \<Rightarrow> ('v, 'f) CycleStats \<times> string \<times> error option" where
  "generateGroupByKey compile t m =
     (let groupkey = groupkey_of m
      in if filters t = None \<and> length (GroupBy t) > 0 then
           (case compile (GroupBy t) of
              Inl e \<Rightarrow> (t\<lparr>filters := None\<rparr>, '''', Some (CouldNotCompilePattern (GroupBy t) e))
            | Inr f \<Rightarrow> (t\<lparr>filters := Some f\<rparr>, groupkey, None))
         else (t, groupkey, None))"

text \<open>
  \<open>groupBy\<close>: on an error the metric is not buffered; else the key gets an empty buffer
  when it has none, and the metric is appended to the buffer of the key.
\<close>

definition groupBy ::
  "(string list \<Rightarrow> string + 'f) \<Rightarrow> ('v, 'f) CycleStats \<Rightarrow> 'v metric \<Rightarrow> ('v, 'f) CycleStats" where
  "groupBy compile t m =
     (case generateGroupByKey compile t m of
        (t1, groupkey, Some err) \<Rightarrow> t1
      | (t1, groupkey, None) \<Rightarrow>
          (let c1 = (if map_of (cache t1) groupkey = None then cache t1 @ [(groupkey, [])]
                     else cache t1)
           in t1\<lparr>cache := AList.update groupkey (buffered c1 groupkey @ [m]) c1\<rparr>))"

text \<open>
  \<open>Aggregate\<close>: the first metric is copied, the fields of the later ones are added to the
  copy. The result is nil (\<open>None\<close>) for an empty list.
\<close>

fun add_fields :: "(string \<times> 'v) list \<Rightarrow> 'v metric \<Rightarrow> 'v metric" where
  "add_fields [] a = a"
| "add_fields (f # fs) a = add_fields fs (AddField (fst f) (snd f) a)"

fun Aggregate_loop :: "'v metric option \<Rightarrow> 'v metric list \<Rightarrow> 'v metric option" where
  "Aggregate_loop metric [] = metric"
| "Aggregate_loop None (m # ms) = Aggregate_loop (Some (Copy m)) ms"
| "Aggregate_loop (Some a) (m # ms) = Aggregate_loop (Some (add_fields (FieldList m) a)) ms"

definition Aggregate :: "'v metric list \<Rightarrow> 'v metric option" where
  "Aggregate ms = Aggregate_loop None ms"

text \<open>
  \<open>push\<close>: one aggregate per group of the cache, then \<open>Reset\<close>. The error of \<open>Aggregate\<close>
  is always nil and ignored; a nil aggregate would be appended as it is.
\<close>

definition push :: "('v, 'f) CycleStats \<Rightarrow> ('v, 'f) CycleStats \<times> 'v metric option list" where
  "push t = (Reset t, map (\<lambda>(k, ms). Aggregate ms) (cache t))"

text \<open>
  \<open>Apply\<close>: the loop over the batch carries the state, \<open>groupkey\<close> and \<open>measurment\<close>.
  \<open>m.Drop()\<close> only tells Telegraf that the metric counts as delivered; it changes nothing
  here. \<open>hasField\<close> is the inner loop: does the metric have any of the fields required
  for its name. After the loop the buffer of the last key is compared with the
  required-field list of the last name.
\<close>

definition hasField :: "('v, 'f) CycleStats \<Rightarrow> 'v metric \<Rightarrow> bool" where
  "hasField t m = list_ex (HasField m) (required t (Name m))"

fun Apply_loop ::
  "(string list \<Rightarrow> string + 'f) \<Rightarrow> ('v, 'f) CycleStats \<times> string \<times> string \<Rightarrow> 'v metric list
     \<Rightarrow> ('v, 'f) CycleStats \<times> string \<times> string" where
  "Apply_loop compile s [] = s"
| "Apply_loop compile (t, groupkey, measurment) (m # ms) =
     (case generateGroupByKey compile t m of
        (t1, gkey, err) \<Rightarrow>
          (if \<not> hasField t1 m
           then Apply_loop compile (t1, gkey, Name m) ms
           else Apply_loop compile (groupBy compile t1 m, gkey, Name m) ms))"

definition Apply ::
  "(string list \<Rightarrow> string + 'f) \<Rightarrow> ('v, 'f) CycleStats \<Rightarrow> 'v metric list
     \<Rightarrow> ('v, 'f) CycleStats \<times> 'v metric option list" where
  "Apply compile t ins =
     (case Apply_loop compile (t, '''', '''') ins of
        (t1, groupkey, measurment) \<Rightarrow>
          (if length (buffered (cache t1) groupkey) \<ge> length (required t1 measurment)
           then push t1 else (t1, [])))"

subsection \<open>The host, and the notions the properties are stated with\<close>

text \<open>
  Telegraf calls \<open>Apply\<close> once per delivered batch, one call after the other;
  \<open>Apply_all\<close> gives the final state and the batch that each call returned.
\<close>

fun Apply_all ::
  "(string list \<Rightarrow> string + 'f) \<Rightarrow> ('v, 'f) CycleStats \<Rightarrow> 'v metric list list
     \<Rightarrow> ('v, 'f) CycleStats \<times> 'v metric option list list" where
  "Apply_all compile t [] = (t, [])"
| "Apply_all compile t (b # bs) =
     (case Apply compile t b of
        (t1, out) \<Rightarrow> (case Apply_all compile t1 bs of (t2, outs) \<Rightarrow> (t2, out # outs)))"

text \<open>
  The grouping patterns of a state compile when a filter is already stored, when there is
  no pattern, or when \<open>compile\<close> accepts the patterns.
\<close>

definition compiles :: "(string list \<Rightarrow> string + 'f) \<Rightarrow> ('v, 'f) CycleStats \<Rightarrow> bool" where
  "compiles compile t = (filters t \<noteq> None \<or> GroupBy t = [] \<or> \<not> isl (compile (GroupBy t)))"

text \<open>
  The state in which \<open>Apply\<close> makes its completeness test, and the test: the buffer of the
  last key has at least as many metrics as the last name has required fields.
\<close>

definition at_test ::
  "(string list \<Rightarrow> string + 'f) \<Rightarrow> ('v, 'f) CycleStats \<Rightarrow> 'v metric list \<Rightarrow> ('v, 'f) CycleStats" where
  "at_test compile t ins = fst (Apply_loop compile (t, '''', '''') ins)"

definition complete ::
  "(string list \<Rightarrow> string + 'f) \<Rightarrow> ('v, 'f) CycleStats \<Rightarrow> 'v metric list \<Rightarrow> bool" where
  "complete compile t ins =
     (case Apply_loop compile (t, '''', '''') ins of
        (t1, groupkey, measurment) \<Rightarrow>
          length (buffered (cache t1) groupkey) \<ge> length (required t1 measurment))"

text \<open>The shape of a cache: the keys are distinct and no buffer is empty.\<close>

definition cache_ok :: "(string \<times> 'v metric list) list \<Rightarrow> bool" where
  "cache_ok c = (distinct (map fst c) \<and> list_all (\<lambda>g. snd g \<noteq> []) c)"

text \<open>
  Two instances of \<open>filter.Compile\<close> for the examples: one that accepts the patterns, as
  Telegraf does for the default \<open>["*"]\<close>, and one that rejects them, as Telegraf does for
  a pattern with an unterminated character class such as \<open>["["]\<close>.
\<close>

definition compile_ok :: "string list \<Rightarrow> string + unit" where
  "compile_ok ps = Inr ()"

definition compile_bad :: "string list \<Rightarrow> string + unit" where
  "compile_bad ps = Inl ''unexpected end of input''"

subsection \<open>Example values\<close>

text \<open>
  An engine whose table is \<open>{"steam": ["a", "b"]}\<close>, and metrics for the examples.
\<close>

definition steam_engine :: "(int, unit) CycleStats" where
  "steam_engine = New\<lparr>Fields := [''steam'' \<mapsto> [''a'', ''b'']]\<rparr>"

definition steam_a :: "int metric" where
  "steam_a = \<lparr>Name = ''steam'', TagList = [(''host'', ''h1'')], FieldList = [(''a'', 1)],
              Time = in_UTC 1700000000250000000\<rparr>"

definition steam_b :: "int metric" where
  "steam_b = \<lparr>Name = ''steam'', TagList = [(''host'', ''h2'')], FieldList = [(''b'', 2)],
              Time = in_UTC 1700000000750000000\<rparr>"

definition grinder_m :: "int metric" where
  "grinder_m = \<lparr>Name = ''grinder'', TagList = [], FieldList = [(''reversals'', 3)],
                Time = in_UTC 1700000000500000000\<rparr>"

definition door_m :: "int metric" where
  "door_m = \<lparr>Name = ''door'', TagList = [], FieldList = [(''open'', 1)],
             Time = in_UTC 1700000001000000000\<rparr>"

definition state_change_m :: "int metric" where
  "state_change_m = \<lparr>Name = ''state_change'', TagList = [], FieldList = [(''state'', 4)],
                     Time = in_UTC 1700000002000000000\<rparr>"

text \<open>
  An engine with two measurements in its table, the engine that \<open>New\<close> makes, and an
  engine whose only grouping pattern is an unterminated character class.
\<close>

definition plant_engine :: "(int, unit) CycleStats" where
  "plant_engine = New\<lparr>Fields := [''steam'' \<mapsto> [''a'', ''b''],
      ''grinder'' \<mapsto> [''grinder_state'', ''jack_status'', ''reversals'']]\<rparr>"

definition default_engine :: "(int, unit) CycleStats" where
  "default_engine = New"

definition bad_engine :: "(int, unit) CycleStats" where
  "bad_engine = steam_engine\<lparr>GroupBy := [''['']\<rparr>"

text \<open>
  The metric \<open>steam_b\<close> with its timestamp in a Location one hour east of UTC; two
  metrics at one instant, the zone of the first named with an \<open>&\<close> in it; and an engine
  whose table has an entry for the empty name.
\<close>

definition steam_b_cet :: "int metric" where
  "steam_b_cet = \<lparr>Name = ''steam'', TagList = [(''host'', ''h2'')], FieldList = [(''b'', 2)],
     Time = \<lparr>unix_nsec = 1700000000750000000, zone_name = ''CET'', zone_offset = 3600\<rparr>\<rparr>"

definition amp_zone_m :: "int metric" where
  "amp_zone_m = \<lparr>Name = ''a'', TagList = [], FieldList = [(''x'', 1)],
     Time = \<lparr>unix_nsec = 1700000000000000000,
              zone_name = ''Z&2023-11-14 22:13:20 +0000 UTC'', zone_offset = 0\<rparr>\<rparr>"

definition amp_name_m :: "int metric" where
  "amp_name_m = \<lparr>Name = ''a&2023-11-14 22:13:20 +0000 Z'', TagList = [],
     FieldList = [(''x'', 1)], Time = in_UTC 1700000000000000000\<rparr>"

definition empty_name_engine :: "(int, unit) CycleStats" where
  "empty_name_engine = New\<lparr>Fields := [''steam'' \<mapsto> [''a'', ''b''], [] \<mapsto> [''a'']]\<rparr>"

subsection \<open>Notions used in the proofs\<close>

text \<open>What \<open>groupBy\<close> does to a cache: the buffer of the key gets the metric at its end.\<close>

fun put :: "string \<Rightarrow> 'v metric \<Rightarrow> (string \<times> 'v metric list) list \<Rightarrow> (string \<times> 'v metric list) list" where
  "put k m [] = [(k, [m])]"
| "put k m (g # c) = (if fst g = k then (k, snd g @ [m]) # c else g # put k m c)"

text \<open>The same for a list of metrics, each under its own key.\<close>

definition put_all :: "'v metric list \<Rightarrow> (string \<times> 'v metric list) list \<Rightarrow> (string \<times> 'v metric list) list" where
  "put_all ms c = fold (\<lambda>m. put (groupkey_of m) m) ms c"

text \<open>The cache that holds the metrics \<open>pre\<close> under one key: no group when there is no metric.\<close>

definition grp :: "string \<Rightarrow> 'v metric list \<Rightarrow> (string \<times> 'v metric list) list" where
  "grp k pre = (if pre = [] then [] else [(k, pre)])"

section \<open>Reset and flush\<close>

lemma cache_Reset [simp]: "cache (Reset t) = []"
  by (simp add: Reset_def)

lemma Fields_Reset [simp]: "Fields (Reset t) = Fields t"
  by (simp add: Reset_def)

lemma fst_push [simp]: "fst (push t) = Reset t"
  by (simp add: push_def)

lemma snd_push [simp]: "snd (push t) = map (\<lambda>(k, ms). Aggregate ms) (cache t)"
  by (simp add: push_def)

text \<open>
  Claim C10. Reset is idempotent: after one call and after two calls in a row the cache
  is empty, the second call changes nothing, and a flush (\<open>push\<close>) right after a reset,
  with nothing buffered in between, returns the empty batch and leaves the cache empty.
\<close>

theorem Reset_idempotent:
  "cache (Reset t) = [] \<and> cache (Reset (Reset t)) = [] \<and> Reset (Reset t) = Reset t
   \<and> snd (push (Reset t)) = [] \<and> cache (fst (push (Reset t))) = []"
  by (simp add: Reset_def push_def)

section \<open>Merging\<close>

lemma map_of_add_field: "map_of (add_field k v fs) = (map_of fs)(k \<mapsto> v)"
  by (induction fs) auto

lemma keys_add_field: "fst ` set (add_field k v fs) = insert k (fst ` set fs)"
  by (induction fs) auto

lemma add_fields_same [simp]:
  "Name (add_fields fs a) = Name a" "TagList (add_fields fs a) = TagList a"
  "Time (add_fields fs a) = Time a"
  by (induction fs arbitrary: a) (simp_all add: AddField_def)

lemma map_of_add_fields:
  "map_of (FieldList (add_fields fs a)) = map_of (FieldList a) ++ map_of (rev fs)"
proof (induction fs arbitrary: a)
  case Nil
  show ?case by simp
next
  case (Cons f fs)
  have 1: "map_of (FieldList (AddField (fst f) (snd f) a)) = map_of (FieldList a) ++ map_of [f]"
    by (simp add: AddField_def map_of_add_field)
  have 2: "map_of (rev (f # fs)) = map_of [f] ++ map_of (rev fs)"
    by (simp only: rev.simps map_of_append)
  show ?case
    using Cons.IH [of "AddField (fst f) (snd f) a"]
    by (simp only: add_fields.simps 1 2 map_add_assoc)
qed

lemma Aggregate_loop_Some:
  "\<exists>b. Aggregate_loop (Some a) ms = Some b \<and> Name b = Name a \<and> TagList b = TagList a
       \<and> Time b = Time a
       \<and> map_of (FieldList b) = map_of (FieldList a) ++ map_of (rev (concat (map FieldList ms)))"
proof (induction ms arbitrary: a)
  case Nil
  show ?case by simp
next
  case (Cons m ms)
  from Cons.IH [of "add_fields (FieldList m) a"] show ?case
    by (auto simp: map_of_add_fields)
qed

lemma keys_of_map: "fst ` set (xs :: (string \<times> 'v) list) = dom (map_of xs)"
  by (simp add: dom_map_of_conv_image_fst)

lemma Aggregate_loop_keys:
  assumes "Aggregate_loop (Some a) ms = Some b"
  shows "fst ` set (FieldList b) = fst ` set (FieldList a) \<union> (\<Union>x\<in>set ms. fst ` set (FieldList x))"
proof -
  from Aggregate_loop_Some [of a ms] assms
  have "map_of (FieldList b) = map_of (FieldList a) ++ map_of (rev (concat (map FieldList ms)))"
    by auto
  then have "dom (map_of (FieldList b))
               = dom (map_of (FieldList a)) \<union> dom (map_of (rev (concat (map FieldList ms))))"
    by (simp add: Un_commute)
  then show ?thesis
    by (simp only: keys_of_map [symmetric]) auto
qed

text \<open>
  Claim C3. Merging a non-empty buffer \<open>m # ms\<close> gives exactly one aggregate. Its name,
  tags and time are those of the first metric \<open>m\<close>; the tags of the later metrics are
  not merged. Its fields are the fields of \<open>m\<close> overwritten by the fields of the later
  metrics in buffer order, so that for a key written more than once the last written
  value stands (\<open>f ++ g\<close> takes \<open>g\<close> where \<open>g\<close> is defined, and \<open>map_of\<close> of the reversed
  list takes the last pair of a key). Its field keys are the union of the field keys of
  all the metrics of the buffer.
\<close>

theorem Aggregate_merge:
  "\<exists>a. Aggregate (m # ms) = Some a \<and> Name a = Name m \<and> TagList a = TagList m
       \<and> Time a = Time m
       \<and> map_of (FieldList a) = map_of (FieldList m) ++ map_of (rev (concat (map FieldList ms)))
       \<and> fst ` set (FieldList a) = (\<Union>x\<in>set (m # ms). fst ` set (FieldList x))"
proof -
  obtain a where a: "Aggregate_loop (Some (Copy m)) ms = Some a" "Name a = Name m"
    "TagList a = TagList m" "Time a = Time m"
    "map_of (FieldList a) = map_of (FieldList m) ++ map_of (rev (concat (map FieldList ms)))"
    using Aggregate_loop_Some [of "Copy m" ms] by (auto simp: Copy_def)
  have "fst ` set (FieldList a) = (\<Union>x\<in>set (m # ms). fst ` set (FieldList x))"
    using Aggregate_loop_keys [OF a(1)] by (simp add: Copy_def)
  with a show ?thesis by (simp add: Aggregate_def)
qed

text \<open>The example of the specification: \<open>x = 1\<close>, then \<open>x = 2\<close> under the same key.\<close>

lemma last_writer_example:
  "Aggregate [\<lparr>Name = ''n'', TagList = [(''t'', ''1'')], FieldList = [(''x'', 1::int)], Time = in_UTC 5\<rparr>,
              \<lparr>Name = ''n'', TagList = [(''t'', ''2'')], FieldList = [(''x'', 2)], Time = in_UTC 7\<rparr>]
     = Some \<lparr>Name = ''n'', TagList = [(''t'', ''1'')], FieldList = [(''x'', 2)], Time = in_UTC 5\<rparr>"
  by (simp add: Aggregate_def Copy_def AddField_def)

section \<open>The group key\<close>

lemma digit_not_amp: "digit n \<noteq> CHR ''&''"
proof -
  have "digit n \<in> set ''0123456789''"
    unfolding digit_def by (rule nth_mem) simp
  then show ?thesis by auto
qed

lemma digits_no_amp: "CHR ''&'' \<notin> set (digits n)"
proof (induction n rule: digits.induct)
  case (1 n)
  show ?case
  proof (cases "n < 10")
    case True
    then show ?thesis using digit_not_amp [of n] by (simp add: digits.simps)
  next
    case False
    then show ?thesis using 1 digit_not_amp [of n]
      by (subst digits.simps) auto
  qed
qed

lemma appendInt_no_amp: "CHR ''&'' \<notin> set (appendInt x w)"
  using digits_no_amp by (auto simp: appendInt_def Let_def)

lemma strip_zeros_subset: "set (strip_zeros cs) \<subseteq> set cs"
  by (induction cs) auto

lemma appendNano_no_amp: "CHR ''&'' \<notin> set (appendNano n)"
  using strip_zeros_subset [of "rev (appendInt n 9)"] appendInt_no_amp [of n 9]
  by (auto simp: appendNano_def)

lemma appendNumTZ_no_amp: "CHR ''&'' \<notin> set (appendNumTZ x)"
  by (simp add: appendNumTZ_def Let_def appendInt_no_amp)

lemma time_String_no_amp:
  "CHR ''&'' \<notin> set (zone_name t) \<Longrightarrow> CHR ''&'' \<notin> set (time_String t)"
  by (simp add: time_String_def Let_def split: prod.split
        add: appendInt_no_amp appendNano_no_amp appendNumTZ_no_amp)

lemma split_at_last:
  assumes "xs @ c # ys = xs' @ c # ys'" "c \<notin> set ys" "c \<notin> set ys'"
  shows "xs = xs'"
proof -
  have "takeWhile (\<lambda>x. x \<noteq> c) (rev (xs @ c # ys)) = rev ys"
    using assms(2) by (auto simp: takeWhile_tail)
  moreover have "takeWhile (\<lambda>x. x \<noteq> c) (rev (xs' @ c # ys')) = rev ys'"
    using assms(3) by (auto simp: takeWhile_tail)
  ultimately have "ys = ys'" using assms(1) by simp
  with assms(1) show ?thesis by simp
qed

lemma Truncate_second:
  "Truncate (1000 * Millisecond) t = t\<lparr>unix_nsec := unix_nsec t div 1000000000 * 1000000000\<rparr>"
proof -
  have "(unix_nsec t + 62135596800 * 1000000000) mod 1000000000 = unix_nsec t mod 1000000000"
    by (rule mod_mult_self1)
  then show ?thesis
    by (simp add: Truncate_def Millisecond_def unixToInternal_def minus_mod_eq_mult_div)
qed

lemma Truncate_zone [simp]:
  "zone_name (Truncate d t) = zone_name t" "zone_offset (Truncate d t) = zone_offset t"
  by (simp_all add: Truncate_def)

section \<open>Key generation and buffering, step by step\<close>

lemma gen_cache [simp]: "cache (fst (generateGroupByKey compile t m)) = cache t"
  by (simp add: generateGroupByKey_def Let_def split: sum.splits)

lemma gen_Fields [simp]: "Fields (fst (generateGroupByKey compile t m)) = Fields t"
  by (simp add: generateGroupByKey_def Let_def split: sum.splits)

lemma gen_GroupBy [simp]: "GroupBy (fst (generateGroupByKey compile t m)) = GroupBy t"
  by (simp add: generateGroupByKey_def Let_def split: sum.splits)

lemma gen_required [simp]: "required (fst (generateGroupByKey compile t m)) n = required t n"
  by (simp add: required_def)

lemma gen_compiles:
  "compiles compile (fst (generateGroupByKey compile t m)) = compiles compile t"
  by (auto simp: generateGroupByKey_def compiles_def Let_def split: sum.splits)

lemma gen_key:
  "compiles compile t \<Longrightarrow>
     snd (generateGroupByKey compile t m) = (groupkey_of m, None)"
  by (auto simp: generateGroupByKey_def compiles_def groupkey_of_def Let_def split: sum.splits)

lemma gen_fails:
  "\<not> compiles compile t \<Longrightarrow>
     \<exists>e. generateGroupByKey compile t m = (t, '''', Some (CouldNotCompilePattern (GroupBy t) e))"
  by (auto simp: generateGroupByKey_def compiles_def Let_def split: sum.splits)

lemma gen_again:
  "compiles compile t \<Longrightarrow>
     generateGroupByKey compile (fst (generateGroupByKey compile t m)) m' =
       (fst (generateGroupByKey compile t m), groupkey_of m', None)"
  by (auto simp: generateGroupByKey_def compiles_def groupkey_of_def Let_def split: sum.splits)

lemma update_put:
  "AList.update k (buffered (if map_of c k = None then c @ [(k, [])] else c) k @ [m])
     (if map_of c k = None then c @ [(k, [])] else c) = put k m c"
proof (induction c)
  case Nil
  show ?case by (simp add: buffered_def)
next
  case (Cons g c)
  obtain k' ms where g: "g = (k', ms)" by (cases g)
  show ?case
  proof (cases "k' = k")
    case True
    then show ?thesis by (simp add: g buffered_def)
  next
    case False
    then show ?thesis using Cons.IH
      by (auto simp: g buffered_def split: if_splits)
  qed
qed

lemma groupBy_compiles:
  assumes "compiles compile t"
  shows "groupBy compile t m =
           (fst (generateGroupByKey compile t m))\<lparr>cache := put (groupkey_of m) m (cache t)\<rparr>"
proof -
  obtain t1 where t1: "generateGroupByKey compile t m = (t1, groupkey_of m, None)"
    using gen_key [OF assms, of m] by (cases "generateGroupByKey compile t m") auto
  have c: "cache t1 = cache t" using gen_cache [of compile t m] by (simp add: t1)
  show ?thesis
    unfolding groupBy_def t1 Let_def
    by (simp only: prod.case option.case c update_put fst_conv)
qed

lemma groupBy_fails:
  "\<not> compiles compile t \<Longrightarrow> groupBy compile t m = t"
  using gen_fails [of compile t m] by (auto simp: groupBy_def)

lemma put_all_Nil [simp]: "put_all [] c = c"
  by (simp add: put_all_def)

lemma put_all_Cons [simp]: "put_all (m # ms) c = put_all ms (put (groupkey_of m) m c)"
  by (simp add: put_all_def)

lemma hasField_gen [simp]: "hasField (fst (generateGroupByKey compile t m)) m' = hasField t m'"
  by (simp add: hasField_def)

lemma hasField_cache [simp]: "hasField (t\<lparr>cache := c\<rparr>) m = hasField t m"
  by (simp add: hasField_def required_def)

lemma compiles_cache [simp]: "compiles compile (t\<lparr>cache := c\<rparr>) = compiles compile t"
  by (simp add: compiles_def)

text \<open>The key and the name that the loop leaves behind are those of the last metric.\<close>

lemma Apply_loop_compiles:
  assumes "compiles compile t"
  shows "\<exists>t'. Apply_loop compile (t, g, me) b =
                 (t', if b = [] then g else groupkey_of (last b), if b = [] then me else Name (last b))
           \<and> cache t' = put_all (filter (hasField t) b) (cache t)
           \<and> Fields t' = Fields t \<and> GroupBy t' = GroupBy t \<and> compiles compile t'"
  using assms
proof (induction b arbitrary: t g me)
  case Nil
  then show ?case by simp
next
  case (Cons m b)
  define t1 where "t1 = fst (generateGroupByKey compile t m)"
  have g1: "generateGroupByKey compile t m = (t1, groupkey_of m, None)"
    using gen_key [OF Cons.prems, of m] by (simp add: t1_def prod_eq_iff)
  have c1: "compiles compile t1" "cache t1 = cache t" "Fields t1 = Fields t"
    "GroupBy t1 = GroupBy t" "hasField t1 = hasField t"
    using Cons.prems by (auto simp: t1_def gen_compiles)
  show ?case
  proof (cases "hasField t m")
    case False
    have step: "Apply_loop compile (t, g, me) (m # b)
                  = Apply_loop compile (t1, groupkey_of m, Name m) b"
      using False by (simp add: g1 c1)
    from Cons.IH [OF c1(1), of "groupkey_of m" "Name m"] show ?thesis
      unfolding step using False by (auto simp: c1)
  next
    case True
    define t2 where "t2 = groupBy compile t1 m"
    have t2: "t2 = (fst (generateGroupByKey compile t1 m))\<lparr>cache := put (groupkey_of m) m (cache t)\<rparr>"
      using groupBy_compiles [OF c1(1), of m] by (simp add: t2_def c1)
    have c2: "compiles compile t2" "cache t2 = put (groupkey_of m) m (cache t)"
      "Fields t2 = Fields t" "GroupBy t2 = GroupBy t" "hasField t2 = hasField t"
      using c1 by (auto simp: t2 gen_compiles)
    have step: "Apply_loop compile (t, g, me) (m # b)
                  = Apply_loop compile (t2, groupkey_of m, Name m) b"
      using True by (simp add: g1 c1 t2_def)
    from Cons.IH [OF c2(1), of "groupkey_of m" "Name m"] show ?thesis
      unfolding step using True by (auto simp: c2)
  qed
qed

lemma Apply_loop_fails:
  assumes "\<not> compiles compile t"
  shows "Apply_loop compile (t, g, me) b =
           (t, if b = [] then g else '''', if b = [] then me else Name (last b))"
proof (induction b arbitrary: g me)
  case Nil
  show ?case by simp
next
  case (Cons m b)
  obtain e where g1: "generateGroupByKey compile t m = (t, '''', Some e)"
    using gen_fails [OF assms, of m] by auto
  show ?case
    using Cons.IH [of "''''" "Name m"] groupBy_fails [OF assms, of m]
    by (simp add: g1)
qed

section \<open>The completeness test\<close>

lemma Apply_split:
  "Apply compile t b =
     (if complete compile t b then push (at_test compile t b) else (at_test compile t b, []))"
  by (simp add: Apply_def complete_def at_test_def split: prod.splits)

lemma at_test_compiles:
  assumes "compiles compile t"
  shows "cache (at_test compile t b) = put_all (filter (hasField t) b) (cache t)"
    and "Fields (at_test compile t b) = Fields t"
    and "GroupBy (at_test compile t b) = GroupBy t"
    and "compiles compile (at_test compile t b)"
  using Apply_loop_compiles [OF assms, of "''''" "''''" b] by (auto simp: at_test_def)

lemma at_test_fails:
  "\<not> compiles compile t \<Longrightarrow> at_test compile t b = t"
  by (simp add: at_test_def Apply_loop_fails)

lemma complete_compiles:
  assumes "compiles compile t"
  shows "complete compile t b =
           (length (required t (if b = [] then '''' else Name (last b)))
              \<le> length (buffered (put_all (filter (hasField t) b) (cache t))
                    (if b = [] then '''' else groupkey_of (last b))))"
  using Apply_loop_compiles [OF assms, of "''''" "''''" b]
  by (auto simp: complete_def required_def)

lemma complete_fails:
  assumes "\<not> compiles compile t"
  shows "complete compile t b =
           (length (required t (if b = [] then '''' else Name (last b)))
              \<le> length (buffered (cache t) ''''))"
  by (simp add: complete_def Apply_loop_fails [OF assms])

lemma buffered_Nil [simp]: "buffered [] k = []"
  by (simp add: buffered_def)

lemma buffered_single [simp]: "buffered [(k, ms)] k = ms"
  by (simp add: buffered_def)

lemma put_all_same:
  "\<forall>m\<in>set b. groupkey_of m = k \<Longrightarrow> put_all b [(k, pre)] = [(k, pre @ b)]"
  by (induction b arbitrary: pre) simp_all

lemma put_all_same_Nil:
  "\<forall>m\<in>set b. groupkey_of m = k \<Longrightarrow> b \<noteq> [] \<Longrightarrow> put_all b [] = [(k, b)]"
  using put_all_same [of "tl b" k "[hd b]"] by (cases b) simp_all

lemma put_all_grp:
  "\<forall>m\<in>set b. groupkey_of m = k \<Longrightarrow> put_all b (grp k pre) = grp k (pre @ b)"
  using put_all_same [of b k pre] put_all_same_Nil [of b k]
  by (cases "b = []") (auto simp: grp_def)

lemma buffered_grp [simp]: "buffered (grp k pre) k = pre"
  by (simp add: grp_def)

lemma Apply_same_key:
  assumes "compiles compile t" "cache t = grp k pre" "b \<noteq> []"
    and "\<forall>m\<in>set b. Name m = n \<and> groupkey_of m = k \<and> hasField t m"
  shows "Apply compile t b =
           (if length (required t n) \<le> length (pre @ b)
            then (Reset (at_test compile t b), [Aggregate (pre @ b)])
            else (at_test compile t b, []))"
    and "cache (at_test compile t b) = grp k (pre @ b)"
proof -
  have f: "filter (hasField t) b = b" using assms(4) by (simp add: filter_id_conv)
  have l: "Name (last b) = n" "groupkey_of (last b) = k"
    using assms(3,4) last_in_set [of b] by auto
  have k: "\<forall>m\<in>set b. groupkey_of m = k" using assms(4) by simp
  show c: "cache (at_test compile t b) = grp k (pre @ b)"
    by (simp add: at_test_compiles(1) [OF assms(1)] f assms(2) put_all_grp [OF k])
  have "complete compile t b = (length (required t n) \<le> length (pre @ b))"
    by (simp add: complete_compiles [OF assms(1)] f assms(2,3) l put_all_grp [OF k])
  then show "Apply compile t b =
           (if length (required t n) \<le> length (pre @ b)
            then (Reset (at_test compile t b), [Aggregate (pre @ b)])
            else (at_test compile t b, []))"
    using assms(3) by (simp add: Apply_split push_def c grp_def)
qed

lemma hasField_Fields: "Fields t' = Fields t \<Longrightarrow> hasField t' m = hasField t m"
  by (simp add: hasField_def required_def)

lemma required_Fields: "Fields t' = Fields t \<Longrightarrow> required t' n = required t n"
  by (simp add: required_def)

lemma Apply_all_below:
  assumes "compiles compile t" "cache t = grp k pre" "\<forall>b\<in>set bs. b \<noteq> []"
    and "\<forall>m\<in>set (concat bs). Name m = n \<and> groupkey_of m = k \<and> hasField t m"
    and "length pre + length (concat bs) < length (required t n)"
  shows "snd (Apply_all compile t bs) = replicate (length bs) []
         \<and> cache (fst (Apply_all compile t bs)) = grp k (pre @ concat bs)
         \<and> Fields (fst (Apply_all compile t bs)) = Fields t
         \<and> compiles compile (fst (Apply_all compile t bs))"
  using assms
proof (induction bs arbitrary: t pre)
  case Nil
  then show ?case by simp
next
  case (Cons b bs)
  define t1 where "t1 = at_test compile t b"
  have b: "b \<noteq> []" "\<forall>m\<in>set b. Name m = n \<and> groupkey_of m = k \<and> hasField t m"
    using Cons.prems by auto
  have ap: "Apply compile t b = (t1, [])" and c1: "cache t1 = grp k (pre @ b)"
    using Apply_same_key [OF Cons.prems(1,2) b] Cons.prems(5) by (auto simp: t1_def)
  have t1: "compiles compile t1" "Fields t1 = Fields t"
    using at_test_compiles [OF Cons.prems(1), of b] by (auto simp: t1_def)
  have h: "\<forall>m\<in>set (concat bs). Name m = n \<and> groupkey_of m = k \<and> hasField t1 m"
    using Cons.prems(4) by (simp add: hasField_Fields [OF t1(2)])
  have l: "length (pre @ b) + length (concat bs) < length (required t1 n)"
    using Cons.prems(5) by (simp add: required_Fields [OF t1(2)])
  have nb: "\<forall>b\<in>set bs. b \<noteq> []" using Cons.prems(3) by simp
  from Cons.IH [OF t1(1) c1 nb h l] show ?case
    by (auto simp: ap t1 split: prod.splits)
qed

lemma Apply_all_snoc:
  "Apply_all compile t (bs @ [b]) =
     (fst (Apply compile (fst (Apply_all compile t bs)) b),
      snd (Apply_all compile t bs) @ [snd (Apply compile (fst (Apply_all compile t bs)) b)])"
  by (induction bs arbitrary: t) (auto split: prod.splits)

lemma groupkey_of_second:
  "groupkey_of m = Name m @ ''&''
     @ time_String ((Time m)\<lparr>unix_nsec := unix_nsec (Time m) div 1000000000 * 1000000000\<rparr>)"
  by (simp only: groupkey_of_def Truncate_second)

lemma groupkey_of_zone:
  assumes "Name m = n" and "unix_nsec (Time m) div 1000000000 = s"
    and "zone_name (Time m) = zn" and "zone_offset (Time m) = zo"
  shows "groupkey_of m = n @ ''&''
           @ time_String \<lparr>unix_nsec = s * 1000000000, zone_name = zn, zone_offset = zo\<rparr>"
proof -
  have "(Time m)\<lparr>unix_nsec := unix_nsec (Time m) div 1000000000 * 1000000000\<rparr>
          = \<lparr>unix_nsec = s * 1000000000, zone_name = zn, zone_offset = zo\<rparr>"
    using assms by (intro gotime.equality) simp_all
  then show ?thesis using assms(1) by (simp add: groupkey_of_second)
qed

lemma groupkey_of_same:
  "Name m1 = Name m2 \<Longrightarrow>
     unix_nsec (Time m1) div 1000000000 = unix_nsec (Time m2) div 1000000000 \<Longrightarrow>
     zone_name (Time m1) = zone_name (Time m2) \<Longrightarrow>
     zone_offset (Time m1) = zone_offset (Time m2) \<Longrightarrow> groupkey_of m1 = groupkey_of m2"
  using groupkey_of_zone [of m1 "Name m1" "unix_nsec (Time m1) div 1000000000"
      "zone_name (Time m1)" "zone_offset (Time m1)"]
    groupkey_of_zone [of m2 "Name m1" "unix_nsec (Time m1) div 1000000000"
      "zone_name (Time m1)" "zone_offset (Time m1)"]
  by simp

lemma groupkey_of_Name:
  assumes "groupkey_of m1 = groupkey_of m2"
    and "CHR ''&'' \<notin> set (zone_name (Time m1))" and "CHR ''&'' \<notin> set (zone_name (Time m2))"
  shows "Name m1 = Name m2"
proof (rule split_at_last)
  show "Name m1 @ CHR ''&'' # time_String (Truncate (1000 * Millisecond) (Time m1))
          = Name m2 @ CHR ''&'' # time_String (Truncate (1000 * Millisecond) (Time m2))"
    using assms(1) by (simp add: groupkey_of_def)
qed (simp_all add: time_String_no_amp assms)

text \<open>
  Claim C1, as the code has it. Let the measurement \<open>n\<close> have the required-field list
  \<open>fs\<close> of length \<open>K \<ge> 1\<close>, let the patterns compile and the cache be empty, and let the
  non-empty batches \<open>bs\<close> be delivered one call after the other, all their metrics named
  \<open>n\<close>, with timestamps in the same second \<open>s\<close> and in the same zone (abbreviation \<open>zn\<close>,
  offset \<open>zo\<close>), each with at least one required field. As long as fewer than \<open>K\<close>
  metrics have arrived every call returns the empty batch. When the batches hold \<open>K\<close>
  metrics in all, every call but the last returns the empty batch, and the last one,
  which buffers the \<open>K\<close>th metric, returns the one aggregate of the \<open>K\<close> metrics and
  leaves the cache empty. Without the same zone the metrics do not share a key: see
  \<open>completeness_threshold_counterexample\<close> below.
\<close>

theorem completeness_threshold:
  assumes "compiles compile t" and "cache t = []" and "Fields t n = Some fs" and "fs \<noteq> []"
    and "\<forall>b\<in>set bs. b \<noteq> []"
    and "\<forall>m\<in>set (concat bs).
           Name m = n \<and> unix_nsec (Time m) div 1000000000 = s
           \<and> zone_name (Time m) = zn \<and> zone_offset (Time m) = zo
           \<and> list_ex (HasField m) fs"
  shows "(length (concat bs) < length fs \<longrightarrow>
            snd (Apply_all compile t bs) = replicate (length bs) [])
       \<and> (length (concat bs) = length fs \<longrightarrow>
            snd (Apply_all compile t bs)
              = replicate (length bs - 1) [] @ [[Aggregate (concat bs)]]
            \<and> cache (fst (Apply_all compile t bs)) = [])"
proof -
  define k where "k = n @ ''&''
    @ time_String \<lparr>unix_nsec = s * 1000000000, zone_name = zn, zone_offset = zo\<rparr>"
  have req: "required t n = fs" by (simp add: required_def assms(3))
  have c0: "cache t = grp k []" by (simp add: grp_def assms(2))
  have good: "\<forall>m\<in>set (concat bs). Name m = n \<and> groupkey_of m = k \<and> hasField t m"
  proof
    fix m assume "m \<in> set (concat bs)"
    with assms(6) have m: "Name m = n" "unix_nsec (Time m) div 1000000000 = s"
      "zone_name (Time m) = zn" "zone_offset (Time m) = zo" "list_ex (HasField m) fs"
      by auto
    show "Name m = n \<and> groupkey_of m = k \<and> hasField t m"
      using m groupkey_of_zone [OF m(1-4)] by (simp add: k_def hasField_def req)
  qed
  have below: "length (concat bs) < length fs \<longrightarrow>
                 snd (Apply_all compile t bs) = replicate (length bs) []"
    using Apply_all_below [OF assms(1) c0 assms(5) good] by (simp add: req)
  have reach: "snd (Apply_all compile t bs)
                 = replicate (length bs - 1) [] @ [[Aggregate (concat bs)]]
               \<and> cache (fst (Apply_all compile t bs)) = []"
    if len: "length (concat bs) = length fs"
  proof -
    from len assms(4) have "bs \<noteq> []" by auto
    then obtain bs' b where bs: "bs = bs' @ [b]" by (metis rev_exhaust)
    have b: "b \<noteq> []" using assms(5) by (simp add: bs)
    have nb': "\<forall>b\<in>set bs'. b \<noteq> []" using assms(5) by (simp add: bs)
    have good': "\<forall>m\<in>set (concat bs'). Name m = n \<and> groupkey_of m = k \<and> hasField t m"
      using good by (simp add: bs)
    have lb: "Suc 0 \<le> length b" using b by (cases b) simp_all
    have "length (concat bs') + length b = length fs" using len by (simp add: bs)
    with lb have "length (concat bs') < length fs" by linarith
    then have lt: "length [] + length (concat bs') < length (required t n)"
      by (simp add: req)
    define t1 where "t1 = fst (Apply_all compile t bs')"
    have pre: "snd (Apply_all compile t bs') = replicate (length bs') []"
      "cache t1 = grp k (concat bs')" "Fields t1 = Fields t" "compiles compile t1"
      using Apply_all_below [OF assms(1) c0 nb' good' lt] by (simp_all add: t1_def)
    have goodb: "\<forall>m\<in>set b. Name m = n \<and> groupkey_of m = k \<and> hasField t1 m"
      using good by (simp add: bs hasField_Fields [OF pre(3)])
    have "length (required t1 n) \<le> length (concat bs' @ b)"
      using len by (simp add: bs req required_Fields [OF pre(3)])
    then have ap: "Apply compile t1 b = (Reset (at_test compile t1 b), [Aggregate (concat bs' @ b)])"
      using Apply_same_key(1) [OF pre(4) pre(2) b goodb] by simp
    show ?thesis
      by (simp add: bs Apply_all_snoc t1_def [symmetric] ap pre(1))
  qed
  from below reach show ?thesis by blast
qed

theorem completeness_threshold_witness:
  "snd (Apply_all compile_ok steam_engine [[steam_a]]) = [[]]
   \<and> snd (Apply_all compile_ok steam_engine [[steam_a], [steam_b]])
       = [[], [Aggregate [steam_a, steam_b]]]
   \<and> cache (fst (Apply_all compile_ok steam_engine [[steam_a], [steam_b]])) = []
   \<and> Aggregate [steam_a, steam_b]
       = Some \<lparr>Name = ''steam'', TagList = [(''host'', ''h1'')],
               FieldList = [(''a'', 1), (''b'', 2)], Time = in_UTC 1700000000250000000\<rparr>"
proof -
  have c: "compiles compile_ok steam_engine"
    by (simp add: compiles_def compile_ok_def)
  have e: "cache steam_engine = []" "Fields steam_engine ''steam'' = Some [''a'', ''b'']"
    "[''a'', ''b''] \<noteq> ([] :: string list)"
    by (simp_all add: steam_engine_def New_def Reset_def)
  have m1: "\<forall>m\<in>set (concat [[steam_a]]). Name m = ''steam''
              \<and> unix_nsec (Time m) div 1000000000 = 1700000000
              \<and> zone_name (Time m) = ''UTC'' \<and> zone_offset (Time m) = 0
              \<and> list_ex (HasField m) [''a'', ''b'']"
    by (simp add: steam_a_def HasField_def in_UTC_def)
  have m2: "\<forall>m\<in>set (concat [[steam_a], [steam_b]]). Name m = ''steam''
              \<and> unix_nsec (Time m) div 1000000000 = 1700000000
              \<and> zone_name (Time m) = ''UTC'' \<and> zone_offset (Time m) = 0
              \<and> list_ex (HasField m) [''a'', ''b'']"
    by (simp add: steam_a_def steam_b_def HasField_def in_UTC_def)
  have n1: "\<forall>b\<in>set [[steam_a]]. b \<noteq> []" and n2: "\<forall>b\<in>set [[steam_a], [steam_b]]. b \<noteq> []"
    by simp_all
  have a: "Aggregate [steam_a, steam_b]
       = Some \<lparr>Name = ''steam'', TagList = [(''host'', ''h1'')],
               FieldList = [(''a'', 1), (''b'', 2)], Time = in_UTC 1700000000250000000\<rparr>"
    by (simp add: Aggregate_def Copy_def AddField_def steam_a_def steam_b_def)
  show ?thesis
    using completeness_threshold [OF c e n1 m1] completeness_threshold [OF c e n2 m2] a
    by simp
qed

section \<open>The flush\<close>

lemma buffered_put:
  "buffered (put k m c) k' = (if k' = k then buffered c k' @ [m] else buffered c k')"
  by (induction c) (auto simp: buffered_def)

lemma keys_put: "fst ` set (put k m c) = insert k (fst ` set c)"
  by (induction c) auto

lemma buffered_put_all:
  "buffered (put_all ms c) k = buffered c k @ filter (\<lambda>m. groupkey_of m = k) ms"
  by (induction ms arbitrary: c) (auto simp: buffered_put)

lemma keys_put_all: "fst ` set (put_all ms c) = fst ` set c \<union> groupkey_of ` set ms"
  by (induction ms arbitrary: c) (auto simp: keys_put)

lemma at_test_keeps:
  "k \<in> fst ` set (cache t) \<Longrightarrow>
     k \<in> fst ` set (cache (at_test compile t b))
     \<and> (\<exists>new. buffered (cache (at_test compile t b)) k = buffered (cache t) k @ new)"
proof (cases "compiles compile t")
  case True
  assume "k \<in> fst ` set (cache t)"
  then show ?thesis
    by (simp add: at_test_compiles(1) [OF True] keys_put_all buffered_put_all)
next
  case False
  assume "k \<in> fst ` set (cache t)"
  then show ?thesis by (simp add: at_test_fails [OF False])
qed

lemma Apply_complete:
  "complete compile t b \<Longrightarrow>
     snd (Apply compile t b) = map (\<lambda>(k, ms). Aggregate ms) (cache (at_test compile t b))
     \<and> cache (fst (Apply compile t b)) = []"
  by (simp add: Apply_split)

text \<open>
  Claim C2. When the completeness test of a call succeeds, every group that was in the
  cache before the call is still in the cache at the test, with all its metrics; the call
  returns one aggregate for each group of the cache at the test, whatever its key, and
  the cache is empty afterwards. The aggregates are compared as a multiset: Go gives no
  order to the groups of a map.
\<close>

theorem global_flush:
  assumes "complete compile t b"
  shows "mset (snd (Apply compile t b))
           = mset (map (\<lambda>(k, ms). Aggregate ms) (cache (at_test compile t b)))
       \<and> cache (fst (Apply compile t b)) = []
       \<and> (\<forall>k\<in>fst ` set (cache t).
            k \<in> fst ` set (cache (at_test compile t b))
            \<and> (\<exists>new. buffered (cache (at_test compile t b)) k = buffered (cache t) k @ new))"
proof -
  have "mset (snd (Apply compile t b))
          = mset (map (\<lambda>(k, ms). Aggregate ms) (cache (at_test compile t b)))"
    using Apply_complete [OF assms] by (simp only:)
  then show ?thesis
    using Apply_complete [OF assms] at_test_keeps [of _ t compile b] by blast
qed

lemma Apply_loop_name:
  "snd (snd (Apply_loop compile (t, g, me) b)) = (if b = [] then me else Name (last b))"
  using Apply_loop_compiles [of compile t g me b] Apply_loop_fails [of compile t g me b]
  by (cases "compiles compile t") auto

lemma at_test_Fields [simp]: "Fields (at_test compile t b) = Fields t"
  using at_test_compiles(2) [of compile t b] at_test_fails [of compile t b]
  by (cases "compiles compile t") auto

lemma at_test_Nil [simp]: "at_test compile t [] = t"
  by (simp add: at_test_def)

lemma complete_no_entry:
  assumes "required t (if b = [] then '''' else Name (last b)) = []"
  shows "complete compile t b"
proof -
  obtain t1 g n where r: "Apply_loop compile (t, '''', '''') b = (t1, g, n)"
    by (cases "Apply_loop compile (t, '''', '''') b") auto
  have n: "n = (if b = [] then '''' else Name (last b))"
    using Apply_loop_name [of compile t "''''" "''''" b] by (simp add: r)
  have "Fields t1 = Fields t"
    using at_test_Fields [of compile t b] by (simp add: at_test_def r)
  then have "required t1 n = []" using assms n by (simp add: required_def)
  then show ?thesis by (simp add: complete_def r)
qed

lemma buffered_in_set: "buffered c k \<noteq> [] \<Longrightarrow> (k, buffered c k) \<in> set c"
  by (auto simp: buffered_def dest: map_of_SomeD split: option.splits)

lemma key_has_group: "k \<in> fst ` set c \<Longrightarrow> (k, buffered c k) \<in> set c"
proof -
  assume "k \<in> fst ` set c"
  then obtain ms where "map_of c k = Some ms"
    by (metis domD dom_map_of_conv_image_fst)
  then show ?thesis by (auto simp: buffered_def dest: map_of_SomeD)
qed

lemma at_test_groups:
  "cache (at_test compile t b)
     = (if compiles compile t then put_all (filter (hasField t) b) (cache t) else cache t)"
  using at_test_compiles(1) [of compile t b] at_test_fails [of compile t b] by simp

text \<open>
  Claim C6, as the code has it. A call with the empty batch, when the table has no entry
  for the empty name that the test then reads, or with a batch whose last metric has a
  name with no entry in the table, passes the completeness test, since the
  required-field count is zero. The call then returns one aggregate for each group of
  the cache as the batch leaves it (the groups buffered before the call, with the metrics
  of the batch that have a required field put under their keys; when the patterns do not
  compile, the groups buffered before the call), and the cache is reset. So every group
  buffered before the call is merged and returned. With an entry for the empty name the
  empty batch does not flush: see \<open>no_entry_flushes_counterexample\<close> below.
\<close>

theorem no_entry_flushes:
  assumes "Fields t (if b = [] then '''' else Name (last b)) = None"
  shows "complete compile t b
       \<and> mset (snd (Apply compile t b))
           = mset (map (\<lambda>(k, ms). Aggregate ms)
               (if compiles compile t then put_all (filter (hasField t) b) (cache t)
                else cache t))
       \<and> (\<forall>k\<in>fst ` set (cache t).
            \<exists>new. Aggregate (buffered (cache t) k @ new) \<in> set (snd (Apply compile t b)))
       \<and> cache (fst (Apply compile t b)) = []"
proof -
  have "required t (if b = [] then '''' else Name (last b)) = []"
    using assms by (simp add: required_def)
  then have c: "complete compile t b" by (rule complete_no_entry)
  note a = Apply_complete [OF c]
  have m: "mset (snd (Apply compile t b))
           = mset (map (\<lambda>(k, ms). Aggregate ms)
               (if compiles compile t then put_all (filter (hasField t) b) (cache t)
                else cache t))"
    using a by (simp only: at_test_groups)
  have k: "\<exists>new. Aggregate (buffered (cache t) k @ new) \<in> set (snd (Apply compile t b))"
    if "k \<in> fst ` set (cache t)" for k
  proof -
    from at_test_keeps [OF that, of compile b] obtain new
      where 1: "k \<in> fst ` set (cache (at_test compile t b))"
        and 2: "buffered (cache (at_test compile t b)) k = buffered (cache t) k @ new"
      by blast
    from key_has_group [OF 1] have "(k, buffered (cache t) k @ new) \<in> set (cache (at_test compile t b))"
      by (simp add: 2)
    then have "Aggregate (buffered (cache t) k @ new) \<in> set (snd (Apply compile t b))"
      using a by force
    then show ?thesis ..
  qed
  from c m k a show ?thesis by blast
qed

lemma example_keys:
  "groupkey_of steam_b = groupkey_of steam_a"
  "groupkey_of grinder_m \<noteq> groupkey_of steam_a"
  "groupkey_of door_m \<noteq> groupkey_of steam_a"
  "groupkey_of state_change_m \<noteq> groupkey_of grinder_m"
proof -
  show "groupkey_of steam_b = groupkey_of steam_a"
    by (rule groupkey_of_same) (simp_all add: steam_a_def steam_b_def in_UTC_def)
  show "groupkey_of grinder_m \<noteq> groupkey_of steam_a"
    using groupkey_of_Name [of grinder_m steam_a]
    by (auto simp: grinder_m_def steam_a_def in_UTC_def)
  show "groupkey_of door_m \<noteq> groupkey_of steam_a"
    using groupkey_of_Name [of door_m steam_a]
    by (auto simp: door_m_def steam_a_def in_UTC_def)
  show "groupkey_of state_change_m \<noteq> groupkey_of grinder_m"
    using groupkey_of_Name [of state_change_m grinder_m]
    by (auto simp: state_change_m_def grinder_m_def in_UTC_def)
qed

lemma Apply_first:
  assumes "compiles compile t" "cache t = []" "hasField t m"
    and "1 < length (required t (Name m))"
  shows "Apply compile t [m] = (at_test compile t [m], [])"
    and "cache (at_test compile t [m]) = [(groupkey_of m, [m])]"
    and "compiles compile (at_test compile t [m])"
    and "Fields (at_test compile t [m]) = Fields t"
proof -
  have c: "cache t = grp (groupkey_of m) []" by (simp add: grp_def assms(2))
  have g: "\<forall>x\<in>set [m]. Name x = Name m \<and> groupkey_of x = groupkey_of m \<and> hasField t x"
    using assms(3) by simp
  show "Apply compile t [m] = (at_test compile t [m], [])"
    using Apply_same_key(1) [OF assms(1) c _ g] assms(4) by simp
  show "cache (at_test compile t [m]) = [(groupkey_of m, [m])]"
    using Apply_same_key(2) [OF assms(1) c _ g] by (simp add: grp_def)
  show "compiles compile (at_test compile t [m])"
    by (rule at_test_compiles(4) [OF assms(1)])
  show "Fields (at_test compile t [m]) = Fields t" by simp
qed

theorem global_flush_witness:
  "cache (fst (Apply compile_ok plant_engine [grinder_m]))
     = [(groupkey_of grinder_m, [grinder_m])]
   \<and> complete compile_ok (fst (Apply compile_ok plant_engine [grinder_m])) [steam_a, steam_b]
   \<and> mset (snd (Apply compile_ok (fst (Apply compile_ok plant_engine [grinder_m]))
        [steam_a, steam_b]))
       = {#Aggregate [grinder_m], Aggregate [steam_a, steam_b]#}
   \<and> Aggregate [grinder_m] = Some grinder_m
   \<and> Aggregate [steam_a, steam_b]
       = Some \<lparr>Name = ''steam'', TagList = [(''host'', ''h1'')],
               FieldList = [(''a'', 1), (''b'', 2)], Time = in_UTC 1700000000250000000\<rparr>
   \<and> cache (fst (Apply compile_ok (fst (Apply compile_ok plant_engine [grinder_m]))
        [steam_a, steam_b])) = []"
proof -
  have ag: "Aggregate [grinder_m] = Some grinder_m"
    "Aggregate [steam_a, steam_b]
       = Some \<lparr>Name = ''steam'', TagList = [(''host'', ''h1'')],
               FieldList = [(''a'', 1), (''b'', 2)], Time = in_UTC 1700000000250000000\<rparr>"
    by (simp_all add: Aggregate_def Copy_def AddField_def steam_a_def steam_b_def)
  define t1 where "t1 = at_test compile_ok plant_engine [grinder_m]"
  have c0: "compiles compile_ok plant_engine" by (simp add: compiles_def compile_ok_def)
  have e: "cache plant_engine = []" by (simp add: plant_engine_def New_def Reset_def)
  have h: "hasField plant_engine grinder_m" "hasField plant_engine steam_a"
    "hasField plant_engine steam_b"
    by (simp_all add: hasField_def required_def HasField_def plant_engine_def
          grinder_m_def steam_a_def steam_b_def)
  have r: "required plant_engine ''grinder'' = [''grinder_state'', ''jack_status'', ''reversals'']"
    "required plant_engine ''steam'' = [''a'', ''b'']"
    by (simp_all add: required_def plant_engine_def)
  have n: "Name grinder_m = ''grinder''" "Name steam_b = ''steam''"
    by (simp_all add: grinder_m_def steam_b_def)
  have l: "1 < length (required plant_engine (Name grinder_m))" by (simp add: n r)
  note f = Apply_first [OF c0 e h(1) l, folded t1_def]
  have a1: "fst (Apply compile_ok plant_engine [grinder_m]) = t1" by (simp add: f(1))
  have hf: "hasField t1 = hasField plant_engine"
    by (rule ext) (rule hasField_Fields [OF f(4)])
  have ct: "cache (at_test compile_ok t1 [steam_a, steam_b])
              = [(groupkey_of grinder_m, [grinder_m]), (groupkey_of steam_a, [steam_a, steam_b])]"
    by (simp add: at_test_compiles(1) [OF f(3)] hf h f(2) example_keys example_keys(2) [symmetric])
  have cp: "complete compile_ok t1 [steam_a, steam_b]"
    by (simp add: complete_compiles [OF f(3)] hf h f(2) example_keys example_keys(2) [symmetric]
          n required_Fields [OF f(4)] r buffered_def)
  show ?thesis
    using global_flush [OF cp] cp by (simp add: a1 f(2) ct ag [symmetric])
qed

theorem no_entry_flushes_witness:
  "Fields (fst (Apply compile_ok plant_engine [grinder_m])) (Name (last [steam_a, door_m])) = None
   \<and> cache (fst (Apply compile_ok plant_engine [grinder_m]))
       = [(groupkey_of grinder_m, [grinder_m])]
   \<and> complete compile_ok (fst (Apply compile_ok plant_engine [grinder_m])) [steam_a, door_m]
   \<and> mset (snd (Apply compile_ok (fst (Apply compile_ok plant_engine [grinder_m]))
        [steam_a, door_m]))
       = {#Some grinder_m, Some steam_a#}
   \<and> cache (fst (Apply compile_ok (fst (Apply compile_ok plant_engine [grinder_m]))
        [steam_a, door_m])) = []"
proof -
  define t1 where "t1 = at_test compile_ok plant_engine [grinder_m]"
  have c0: "compiles compile_ok plant_engine" by (simp add: compiles_def compile_ok_def)
  have e: "cache plant_engine = []" by (simp add: plant_engine_def New_def Reset_def)
  have h: "hasField plant_engine grinder_m" "hasField plant_engine steam_a"
    "\<not> hasField plant_engine door_m"
    by (simp_all add: hasField_def required_def HasField_def plant_engine_def
          grinder_m_def steam_a_def door_m_def)
  have l: "1 < length (required plant_engine (Name grinder_m))"
    by (simp add: required_def plant_engine_def grinder_m_def)
  note f = Apply_first [OF c0 e h(1) l, folded t1_def]
  have a1: "fst (Apply compile_ok plant_engine [grinder_m]) = t1" by (simp add: f(1))
  have hf: "hasField t1 = hasField plant_engine"
    by (rule ext) (rule hasField_Fields [OF f(4)])
  have n: "Fields t1 (if [steam_a, door_m] = [] then '''' else Name (last [steam_a, door_m])) = None"
    by (simp add: f(4) plant_engine_def door_m_def)
  have g: "(if compiles compile_ok t1
            then put_all (filter (hasField t1) [steam_a, door_m]) (cache t1) else cache t1)
           = [(groupkey_of grinder_m, [grinder_m]), (groupkey_of steam_a, [steam_a])]"
    by (simp add: f(3) hf h f(2) example_keys)
  have ag: "Aggregate [grinder_m] = Some grinder_m" "Aggregate [steam_a] = Some steam_a"
    by (simp_all add: Aggregate_def Copy_def)
  show ?thesis
    using no_entry_flushes [OF n, of compile_ok] n
    by (simp add: a1 f(2) g ag)
qed

lemma empty_name_engine_facts:
  "compiles compile_ok empty_name_engine" "cache empty_name_engine = []"
  "hasField empty_name_engine steam_a"
  "required empty_name_engine ''steam'' = [''a'', ''b'']"
  "required empty_name_engine [] = [''a'']"
  by (simp_all add: compiles_def compile_ok_def empty_name_engine_def New_def Reset_def
        required_def hasField_def HasField_def steam_a_def)

theorem no_entry_flushes_counterexample:
  "Fields empty_name_engine [] = Some [''a'']
   \<and> cache (fst (Apply compile_ok empty_name_engine [steam_a]))
       = [(groupkey_of steam_a, [steam_a])]
   \<and> snd (Apply compile_ok (fst (Apply compile_ok empty_name_engine [steam_a])) []) = []
   \<and> cache (fst (Apply compile_ok (fst (Apply compile_ok empty_name_engine [steam_a])) []))
       = [(groupkey_of steam_a, [steam_a])]"
proof -
  define t1 where "t1 = at_test compile_ok empty_name_engine [steam_a]"
  have l: "1 < length (required empty_name_engine (Name steam_a))"
    by (simp add: empty_name_engine_facts steam_a_def)
  note f = Apply_first [OF empty_name_engine_facts(1-3) l, folded t1_def]
  have a1: "fst (Apply compile_ok empty_name_engine [steam_a]) = t1" by (simp add: f(1))
  have k: "groupkey_of steam_a \<noteq> []" by (simp add: groupkey_of_def)
  have "\<not> complete compile_ok t1 []"
    using k by (simp add: complete_compiles [OF f(3)] f(2) required_Fields [OF f(4)]
          empty_name_engine_facts buffered_def)
  then have a2: "Apply compile_ok t1 [] = (t1, [])"
    by (simp add: Apply_split)
  have i: "Fields empty_name_engine [] = Some [''a'']"
    by (simp add: empty_name_engine_def)
  show ?thesis by (simp add: a1 a2 f(2) i)
qed

section \<open>Metrics with no entry in the table\<close>

lemma hasField_no_entry: "Fields t (Name m) = None \<Longrightarrow> \<not> hasField t m"
  by (simp add: hasField_def required_def)

lemma at_test_skip:
  assumes "\<not> hasField t m"
  shows "cache (at_test compile t (pre @ m # post)) = cache (at_test compile t (pre @ post))"
proof (cases "compiles compile t")
  case True
  show ?thesis using assms by (simp add: at_test_compiles(1) [OF True])
next
  case False
  show ?thesis by (simp add: at_test_fails [OF False])
qed

lemma Apply_no_entry:
  assumes "Fields t (Name m) = None"
  shows "cache (at_test compile t [m]) = cache t"
    and "snd (Apply compile t [m]) = map (\<lambda>(k, ms). Aggregate ms) (cache t)"
    and "cache (fst (Apply compile t [m])) = []"
proof -
  show c: "cache (at_test compile t [m]) = cache t"
    using at_test_skip [OF hasField_no_entry [OF assms], of compile "[]" "[]"] by simp
  have "required t (if [m] = [] then '''' else Name (last [m])) = []"
    using assms by (simp add: required_def)
  then have "complete compile t [m]" by (rule complete_no_entry)
  from Apply_complete [OF this]
  show "snd (Apply compile t [m]) = map (\<lambda>(k, ms). Aggregate ms) (cache t)"
    and "cache (fst (Apply compile t [m])) = []"
    by (simp_all add: c)
qed

text \<open>
  Claim C5, as the code has it. A batch of one metric whose name has no entry in the
  table: the metric is not buffered, and it is not forwarded, since the call returns
  exactly the aggregates of the groups that were in the cache before it. The call empties
  the cache. So when the cache is empty before the call the batch returned is empty and
  the cache is unchanged.
\<close>

theorem unknown_measurement_dropped:
  assumes "Fields t (Name m) = None"
  shows "cache (at_test compile t [m]) = cache t
       \<and> mset (snd (Apply compile t [m])) = mset (map (\<lambda>(k, ms). Aggregate ms) (cache t))
       \<and> cache (fst (Apply compile t [m])) = []
       \<and> (cache t = [] \<longrightarrow>
            snd (Apply compile t [m]) = [] \<and> cache (fst (Apply compile t [m])) = cache t)"
  using Apply_no_entry [OF assms, of compile] by simp

lemma default_grinder:
  "compiles compile_ok default_engine" "cache default_engine = []"
  "hasField default_engine grinder_m" "1 < length (required default_engine (Name grinder_m))"
  "Fields default_engine ''door'' = None" "Fields default_engine ''state_change'' = None"
  by (simp_all add: compiles_def compile_ok_def default_engine_def New_def Reset_def
        hasField_def required_def HasField_def default_Fields_def grinder_m_def)

lemma Aggregate_single: "Aggregate [m] = Some m"
  by (simp add: Aggregate_def Copy_def)

theorem unknown_measurement_dropped_witness:
  "Fields default_engine (Name door_m) = None \<and> cache default_engine = []
   \<and> cache (at_test compile_ok default_engine [door_m]) = cache default_engine
   \<and> snd (Apply compile_ok default_engine [door_m]) = []
   \<and> cache (fst (Apply compile_ok default_engine [door_m])) = cache default_engine"
proof -
  have n: "Fields default_engine (Name door_m) = None"
    by (simp add: default_grinder door_m_def)
  show ?thesis
    using unknown_measurement_dropped [OF n, of compile_ok] n
    by (simp add: default_grinder)
qed

theorem unknown_measurement_counterexample:
  "Fields (fst (Apply compile_ok default_engine [grinder_m])) (Name door_m) = None
   \<and> cache (fst (Apply compile_ok default_engine [grinder_m]))
       = [(groupkey_of grinder_m, [grinder_m])]
   \<and> snd (Apply compile_ok (fst (Apply compile_ok default_engine [grinder_m])) [door_m])
       = [Some grinder_m]
   \<and> cache (fst (Apply compile_ok (fst (Apply compile_ok default_engine [grinder_m])) [door_m]))
       = []"
proof -
  define t1 where "t1 = at_test compile_ok default_engine [grinder_m]"
  note f = Apply_first [OF default_grinder(1-4), folded t1_def]
  have a1: "fst (Apply compile_ok default_engine [grinder_m]) = t1" by (simp add: f(1))
  have n: "Fields t1 (Name door_m) = None"
    by (simp add: f(4) default_grinder door_m_def)
  show ?thesis
    using Apply_no_entry [OF n, of compile_ok] n
    by (simp add: a1 f(2) Aggregate_single)
qed

text \<open>
  Claim C4, as the code has it. \<open>Apply\<close> has no reserved control name. When the table has
  no entry for the name \<open>state_change\<close>, as in the table of \<open>New\<close>, a metric of that name
  is never buffered, wherever it stands in a batch, and never emitted. A batch that
  consists of it empties the cache by the ordinary flush: the groups are not discarded,
  the call returns the aggregate of every group that was in the cache.
\<close>

theorem state_change_flushes:
  assumes "Name m = ''state_change''" and "Fields t ''state_change'' = None"
  shows "cache (at_test compile t (pre @ m # post)) = cache (at_test compile t (pre @ post))
       \<and> mset (snd (Apply compile t [m])) = mset (map (\<lambda>(k, ms). Aggregate ms) (cache t))
       \<and> cache (fst (Apply compile t [m])) = []"
proof -
  have n: "Fields t (Name m) = None" using assms by simp
  show ?thesis
    using at_test_skip [OF hasField_no_entry [OF n], of compile pre post]
      Apply_no_entry(2,3) [OF n, of compile]
    by simp
qed

theorem state_change_flushes_witness:
  "Name state_change_m = ''state_change'' \<and> Fields default_engine ''state_change'' = None
   \<and> cache (at_test compile_ok default_engine [grinder_m, state_change_m])
       = cache (at_test compile_ok default_engine [grinder_m])
   \<and> snd (Apply compile_ok default_engine [state_change_m]) = []
   \<and> cache (fst (Apply compile_ok default_engine [state_change_m])) = []"
proof -
  have n: "Name state_change_m = ''state_change''" by (simp add: state_change_m_def)
  show ?thesis
    using state_change_flushes [OF n default_grinder(6), of compile_ok "[grinder_m]" "[]"] n
    by (simp add: default_grinder)
qed

theorem state_change_counterexample:
  "Name state_change_m = ''state_change''
   \<and> cache (fst (Apply compile_ok default_engine [grinder_m]))
       = [(groupkey_of grinder_m, [grinder_m])]
   \<and> snd (Apply compile_ok (fst (Apply compile_ok default_engine [grinder_m]))
        [state_change_m]) = [Some grinder_m]"
proof -
  define t1 where "t1 = at_test compile_ok default_engine [grinder_m]"
  note f = Apply_first [OF default_grinder(1-4), folded t1_def]
  have a1: "fst (Apply compile_ok default_engine [grinder_m]) = t1" by (simp add: f(1))
  have n: "Fields t1 (Name state_change_m) = None"
    by (simp add: f(4) default_grinder state_change_m_def)
  show ?thesis
    using Apply_no_entry(2) [OF n, of compile_ok]
    by (simp add: a1 f(2) Aggregate_single state_change_m_def)
qed

section \<open>Initialisation and key generation\<close>

text \<open>
  Claim C9, as the code has it. \<open>Init\<close> never returns an error, whatever the grouping
  patterns are: they are compiled by \<open>generateGroupByKey\<close>, at the first metric. Key
  generation changes nothing of the state but the stored filter. When the patterns
  compile it returns the key and no error; when they do not, it returns the empty key
  with an error for every metric, during \<open>Apply\<close>, and \<open>groupBy\<close> buffers nothing.
\<close>

theorem key_generation:
  "Init t = None
   \<and> cache (fst (generateGroupByKey compile t m)) = cache t
   \<and> Fields (fst (generateGroupByKey compile t m)) = Fields t
   \<and> GroupBy (fst (generateGroupByKey compile t m)) = GroupBy t
   \<and> (compiles compile t \<longrightarrow>
        snd (generateGroupByKey compile t m)
          = (Name m @ ''&'' @ time_String (Truncate (1000 * Millisecond) (Time m)), None))
   \<and> (\<not> compiles compile t \<longrightarrow>
        (\<exists>e. generateGroupByKey compile t m
               = (t, '''', Some (CouldNotCompilePattern (GroupBy t) e)))
        \<and> groupBy compile t m = t)"
  using gen_key [of compile t m] gen_fails [of compile t m] groupBy_fails [of compile t m]
  by (simp add: Init_def groupkey_of_def)

lemma bad_engine_fails: "\<not> compiles compile_bad bad_engine"
  by (simp add: compiles_def compile_bad_def bad_engine_def steam_engine_def New_def Reset_def)

theorem key_generation_witness:
  "compiles compile_ok steam_engine
   \<and> snd (generateGroupByKey compile_ok steam_engine steam_a)
       = (Name steam_a @ ''&'' @ time_String (Truncate (1000 * Millisecond) (Time steam_a)), None)
   \<and> \<not> compiles compile_bad bad_engine
   \<and> fst (snd (generateGroupByKey compile_bad bad_engine steam_a)) = ''''
   \<and> groupBy compile_bad bad_engine steam_a = bad_engine"
proof -
  have c: "compiles compile_ok steam_engine" by (simp add: compiles_def compile_ok_def)
  show ?thesis
    using key_generation [of steam_engine compile_ok steam_a]
      key_generation [of bad_engine compile_bad steam_a] c bad_engine_fails
    by auto
qed

theorem init_counterexample:
  "isl (compile_bad (GroupBy bad_engine)) \<and> Init bad_engine = None
   \<and> generateGroupByKey compile_bad bad_engine steam_a
       = (bad_engine, '''', Some (CouldNotCompilePattern [''[''] ''unexpected end of input''))
   \<and> Apply compile_bad bad_engine [steam_a, steam_b] = (bad_engine, [])"
proof -
  have g: "generateGroupByKey compile_bad bad_engine steam_a
             = (bad_engine, '''', Some (CouldNotCompilePattern [''[''] ''unexpected end of input''))"
    by (simp add: generateGroupByKey_def compile_bad_def bad_engine_def steam_engine_def
          New_def Reset_def)
  have r: "required bad_engine ''steam'' = [''a'', ''b'']" "cache bad_engine = []"
    by (simp_all add: required_def bad_engine_def steam_engine_def New_def Reset_def)
  have "\<not> complete compile_bad bad_engine [steam_a, steam_b]"
    by (simp add: complete_fails [OF bad_engine_fails] r steam_b_def)
  then have a: "Apply compile_bad bad_engine [steam_a, steam_b] = (bad_engine, [])"
    by (simp add: Apply_split at_test_fails [OF bad_engine_fails])
  show ?thesis by (simp add: g a Init_def compile_bad_def)
qed


section \<open>The shape of the cache\<close>


lemma cache_New: "cache New = []"
  by (simp add: New_def)

lemma cache_ok_Nil [simp]: "cache_ok []"
  by (simp add: cache_ok_def)










section \<open>The printed time and the key on examples\<close>

text \<open>
  Go prints the instant 1700000000 s as \<open>2023-11-14 22:13:20 +0000 UTC\<close> in UTC and as
  \<open>2023-11-14 23:13:20 +0100 CET\<close> in a zone one hour east named CET; so does the model.
  The key of a metric is its name, \<open>&\<close> and that text.
\<close>

lemma civil_example: "civil 19675 = (2023, 11, 14)"
  unfolding civil_def Let_def by simp

lemma appendInt_examples:
  "appendInt 2023 4 = ''2023''" "appendInt 11 2 = ''11''" "appendInt 14 2 = ''14''"
  "appendInt 22 2 = ''22''" "appendInt 23 2 = ''23''" "appendInt 13 2 = ''13''"
  "appendInt 20 2 = ''20''" "appendInt 0 2 = ''00''" "appendInt 1 2 = ''01''"
  by (simp_all add: appendInt_def digits.simps digit_def)

lemma appendNumTZ_examples: "appendNumTZ 0 = ''+0000''" "appendNumTZ 3600 = ''+0100''"
  by (simp_all add: appendNumTZ_def appendInt_examples)

lemma time_String_parts:
  assumes "unix_nsec t div 1000000000 + zone_offset t = secs"
    and "civil (secs div 86400) = (y, mo, d)" and "secs mod 86400 = r"
  shows "time_String t =
           appendInt y 4 @ ''-'' @ appendInt mo 2 @ ''-'' @ appendInt d 2 @ '' ''
           @ appendInt (r div 3600) 2 @ '':'' @ appendInt (r mod 3600 div 60) 2 @ '':''
           @ appendInt (r mod 60) 2 @ appendNano (unix_nsec t mod 1000000000) @ '' ''
           @ appendNumTZ (zone_offset t)
           @ '' '' @ (if zone_name t \<noteq> [] then zone_name t else appendNumTZ (zone_offset t))"
  unfolding time_String_def Let_def assms prod.case ..

lemma time_String_examples:
  "time_String \<lparr>unix_nsec = 1700000000000000000, zone_name = ''UTC'', zone_offset = 0\<rparr>
     = ''2023-11-14 22:13:20 +0000 UTC''"
  "time_String \<lparr>unix_nsec = 1700000000000000000, zone_name = ''CET'', zone_offset = 3600\<rparr>
     = ''2023-11-14 23:13:20 +0100 CET''"
  "time_String \<lparr>unix_nsec = 1700000000000000000,
                 zone_name = ''Z&2023-11-14 22:13:20 +0000 UTC'', zone_offset = 0\<rparr>
     = ''2023-11-14 22:13:20 +0000 Z&2023-11-14 22:13:20 +0000 UTC''"
proof -
  show "time_String \<lparr>unix_nsec = 1700000000000000000, zone_name = ''UTC'', zone_offset = 0\<rparr>
     = ''2023-11-14 22:13:20 +0000 UTC''"
    by (subst time_String_parts [of _ 1700000000 2023 11 14 80000])
       (simp_all add: civil_example appendInt_examples appendNumTZ_examples appendNano_def)
  show "time_String \<lparr>unix_nsec = 1700000000000000000, zone_name = ''CET'', zone_offset = 3600\<rparr>
     = ''2023-11-14 23:13:20 +0100 CET''"
    by (subst time_String_parts [of _ 1700003600 2023 11 14 83600])
       (simp_all add: civil_example appendInt_examples appendNumTZ_examples appendNano_def)
  show "time_String \<lparr>unix_nsec = 1700000000000000000,
                 zone_name = ''Z&2023-11-14 22:13:20 +0000 UTC'', zone_offset = 0\<rparr>
     = ''2023-11-14 22:13:20 +0000 Z&2023-11-14 22:13:20 +0000 UTC''"
    by (subst time_String_parts [of _ 1700000000 2023 11 14 80000])
       (simp_all add: civil_example appendInt_examples appendNumTZ_examples appendNano_def)
qed

lemma groupkey_of_examples:
  "groupkey_of steam_a = ''steam&2023-11-14 22:13:20 +0000 UTC''"
  "groupkey_of steam_b = ''steam&2023-11-14 22:13:20 +0000 UTC''"
  "groupkey_of steam_b_cet = ''steam&2023-11-14 23:13:20 +0100 CET''"
  "groupkey_of amp_zone_m = ''a&2023-11-14 22:13:20 +0000 Z&2023-11-14 22:13:20 +0000 UTC''"
  "groupkey_of amp_name_m = ''a&2023-11-14 22:13:20 +0000 Z&2023-11-14 22:13:20 +0000 UTC''"
proof -
  show "groupkey_of steam_a = ''steam&2023-11-14 22:13:20 +0000 UTC''"
    by (subst groupkey_of_zone [of _ "''steam''" 1700000000 "''UTC''" 0])
       (simp_all add: steam_a_def in_UTC_def time_String_examples)
  show "groupkey_of steam_b = ''steam&2023-11-14 22:13:20 +0000 UTC''"
    by (subst groupkey_of_zone [of _ "''steam''" 1700000000 "''UTC''" 0])
       (simp_all add: steam_b_def in_UTC_def time_String_examples)
  show "groupkey_of steam_b_cet = ''steam&2023-11-14 23:13:20 +0100 CET''"
    by (subst groupkey_of_zone [of _ "''steam''" 1700000000 "''CET''" 3600])
       (simp_all add: steam_b_cet_def time_String_examples)
  show "groupkey_of amp_zone_m = ''a&2023-11-14 22:13:20 +0000 Z&2023-11-14 22:13:20 +0000 UTC''"
    by (subst groupkey_of_zone [of _ "''a''" 1700000000 "''Z&2023-11-14 22:13:20 +0000 UTC''" 0])
       (simp_all add: amp_zone_m_def time_String_examples)
  show "groupkey_of amp_name_m = ''a&2023-11-14 22:13:20 +0000 Z&2023-11-14 22:13:20 +0000 UTC''"
    by (subst groupkey_of_zone [of _ "''a&2023-11-14 22:13:20 +0000 Z''" 1700000000 "''UTC''" 0])
       (simp_all add: amp_name_m_def in_UTC_def time_String_examples)
qed

section \<open>Metrics of one second in different Locations\<close>

text \<open>
  Two metrics named \<open>steam\<close> in the same second, each with a required field, one with its
  timestamp in UTC and one in CET, for a table that requires two fields: the keys differ,
  so neither call flushes and the cache holds two groups of one metric.
\<close>

lemma steam_engine_facts:
  "compiles compile_ok steam_engine" "cache steam_engine = []"
  "required steam_engine ''steam'' = [''a'', ''b'']"
  "hasField steam_engine steam_a" "hasField steam_engine steam_b_cet"
  by (simp_all add: compiles_def compile_ok_def steam_engine_def New_def Reset_def
        required_def hasField_def HasField_def steam_a_def steam_b_cet_def)

theorem completeness_threshold_counterexample:
  "Fields steam_engine ''steam'' = Some [''a'', ''b'']
   \<and> Name steam_a = ''steam'' \<and> Name steam_b_cet = ''steam''
   \<and> unix_nsec (Time steam_a) div 1000000000 = 1700000000
   \<and> unix_nsec (Time steam_b_cet) div 1000000000 = 1700000000
   \<and> list_ex (HasField steam_a) [''a'', ''b''] \<and> list_ex (HasField steam_b_cet) [''a'', ''b'']
   \<and> snd (Apply_all compile_ok steam_engine [[steam_a], [steam_b_cet]]) = [[], []]
   \<and> cache (fst (Apply_all compile_ok steam_engine [[steam_a], [steam_b_cet]]))
       = [(''steam&2023-11-14 22:13:20 +0000 UTC'', [steam_a]),
          (''steam&2023-11-14 23:13:20 +0100 CET'', [steam_b_cet])]"
proof -
  define t1 where "t1 = at_test compile_ok steam_engine [steam_a]"
  have l: "1 < length (required steam_engine (Name steam_a))"
    by (simp add: steam_engine_facts steam_a_def)
  note f = Apply_first [OF steam_engine_facts(1,2,4) l, folded t1_def]
  have hf: "hasField t1 = hasField steam_engine"
    by (rule ext) (rule hasField_Fields [OF f(4)])
  have c2: "cache (at_test compile_ok t1 [steam_b_cet])
              = [(groupkey_of steam_a, [steam_a]), (groupkey_of steam_b_cet, [steam_b_cet])]"
    by (simp add: at_test_compiles(1) [OF f(3)] hf steam_engine_facts f(2) groupkey_of_examples)
  have n: "Name steam_b_cet = ''steam''" by (simp add: steam_b_cet_def)
  have "\<not> complete compile_ok t1 [steam_b_cet]"
    by (simp add: complete_compiles [OF f(3)] hf steam_engine_facts f(2) n
          required_Fields [OF f(4)] buffered_def groupkey_of_examples)
  then have a2: "Apply compile_ok t1 [steam_b_cet] = (at_test compile_ok t1 [steam_b_cet], [])"
    by (simp add: Apply_split)
  have r: "Apply_all compile_ok steam_engine [[steam_a], [steam_b_cet]]
             = (at_test compile_ok t1 [steam_b_cet], [[], []])"
    by (simp add: f(1) a2)
  have o: "snd (Apply_all compile_ok steam_engine [[steam_a], [steam_b_cet]]) = [[], []]"
    by (simp only: r snd_conv)
  have c: "cache (fst (Apply_all compile_ok steam_engine [[steam_a], [steam_b_cet]]))
       = [(''steam&2023-11-14 22:13:20 +0000 UTC'', [steam_a]),
          (''steam&2023-11-14 23:13:20 +0100 CET'', [steam_b_cet])]"
    by (simp only: r fst_conv c2 groupkey_of_examples)
  have i: "Fields steam_engine ''steam'' = Some [''a'', ''b'']"
    "Name steam_a = ''steam''" "Name steam_b_cet = ''steam''"
    "unix_nsec (Time steam_a) div 1000000000 = 1700000000"
    "unix_nsec (Time steam_b_cet) div 1000000000 = 1700000000"
    "list_ex (HasField steam_a) [''a'', ''b'']" "list_ex (HasField steam_b_cet) [''a'', ''b'']"
    by (simp_all add: steam_engine_def New_def Reset_def steam_a_def steam_b_cet_def
          HasField_def in_UTC_def)
  from o c i show ?thesis by (intro conjI)
qed


section \<open>The group key, characterised\<close>

text \<open>
  Claim C8, as the code has it. The key is made of the name and of the printed time,
  and Go prints a time in its own Location. When the patterns compile, two metrics with
  the same name whose timestamps lie in the same second and in the same zone (the same
  abbreviation and offset) get the same key; and two metrics with different names get
  different keys whatever their timestamps are, provided no zone abbreviation contains
  the separator \<open>&\<close>.
\<close>

theorem groupkey_characterization:
  assumes "compiles compile t1" and "compiles compile t2"
  shows "(Name m1 = Name m2
            \<and> unix_nsec (Time m1) div 1000000000 = unix_nsec (Time m2) div 1000000000
            \<and> zone_name (Time m1) = zone_name (Time m2)
            \<and> zone_offset (Time m1) = zone_offset (Time m2) \<longrightarrow>
            fst (snd (generateGroupByKey compile t1 m1))
              = fst (snd (generateGroupByKey compile t2 m2)))
       \<and> (Name m1 \<noteq> Name m2 \<and> CHR ''&'' \<notin> set (zone_name (Time m1))
            \<and> CHR ''&'' \<notin> set (zone_name (Time m2)) \<longrightarrow>
            fst (snd (generateGroupByKey compile t1 m1))
              \<noteq> fst (snd (generateGroupByKey compile t2 m2)))"
proof -
  have k: "fst (snd (generateGroupByKey compile t1 m1)) = groupkey_of m1"
    "fst (snd (generateGroupByKey compile t2 m2)) = groupkey_of m2"
    using gen_key [OF assms(1), of m1] gen_key [OF assms(2), of m2] by simp_all
  show ?thesis
    unfolding k using groupkey_of_same [of m1 m2] groupkey_of_Name [of m1 m2] by blast
qed

theorem groupkey_characterization_witness:
  "Name steam_a = Name steam_b \<and> Time steam_a \<noteq> Time steam_b
   \<and> fst (snd (generateGroupByKey compile_ok steam_engine steam_a))
       = fst (snd (generateGroupByKey compile_ok steam_engine steam_b))
   \<and> Name steam_a \<noteq> Name grinder_m
   \<and> fst (snd (generateGroupByKey compile_ok steam_engine steam_a))
       \<noteq> fst (snd (generateGroupByKey compile_ok steam_engine grinder_m))"
proof -
  have c: "compiles compile_ok steam_engine"
    by (simp add: compiles_def compile_ok_def)
  show ?thesis
    using groupkey_characterization [OF c c, of steam_a steam_b]
      groupkey_characterization [OF c c, of steam_a grinder_m]
    by (simp add: steam_a_def steam_b_def grinder_m_def in_UTC_def)
qed

theorem groupkey_characterization_counterexample:
  "Name steam_b = Name steam_b_cet \<and> unix_nsec (Time steam_b) = unix_nsec (Time steam_b_cet)
   \<and> fst (snd (generateGroupByKey compile_ok steam_engine steam_b))
       = ''steam&2023-11-14 22:13:20 +0000 UTC''
   \<and> fst (snd (generateGroupByKey compile_ok steam_engine steam_b_cet))
       = ''steam&2023-11-14 23:13:20 +0100 CET''
   \<and> fst (snd (generateGroupByKey compile_ok steam_engine steam_b))
       \<noteq> fst (snd (generateGroupByKey compile_ok steam_engine steam_b_cet))
   \<and> Name amp_zone_m \<noteq> Name amp_name_m
   \<and> fst (snd (generateGroupByKey compile_ok steam_engine amp_zone_m))
       = fst (snd (generateGroupByKey compile_ok steam_engine amp_name_m))"
proof -
  have k: "fst (snd (generateGroupByKey compile_ok steam_engine m)) = groupkey_of m" for m :: "int metric"
    using gen_key [OF steam_engine_facts(1), of m] by simp
  show ?thesis
    by (simp add: k groupkey_of_examples)
       (simp add: steam_b_def steam_b_cet_def amp_zone_m_def amp_name_m_def in_UTC_def)
qed

end
